theory Spec2Isabelle
  imports Main "HOL-Library.Product_Lexorder"
begin

section \<open>Characters and the character classes of the regular expressions\<close>

text \<open>
  A title is a Python \<open>str\<close>; it is modelled as a \<open>string\<close>. The classes below are the
  ASCII part of Python's classes: \<open>[A-Z]\<close>, \<open>[a-z]\<close>, \<open>[0-9]\<close>, \<open>\<backslash>w\<close> (letters, digits and the
  underscore) and \<open>\<backslash>s\<close> (tab, line feed, vertical tab, form feed, carriage return, the four
  separators 28 to 31 and the space). \<open>str.lower\<close> and \<open>str.upper\<close> move the ASCII letters
  by 32. Characters beyond ASCII are kept as they are and belong to no class: the Unicode
  tables of \<open>\<backslash>w\<close>, \<open>\<backslash>d\<close>, \<open>\<backslash>s\<close> and of \<open>str.lower\<close> are not part of this development.
\<close>

definition is_upper :: "char \<Rightarrow> bool" where
  "is_upper c = (let n = (of_char c :: nat) in 65 \<le> n \<and> n \<le> 90)"

definition is_lower :: "char \<Rightarrow> bool" where
  "is_lower c = (let n = (of_char c :: nat) in 97 \<le> n \<and> n \<le> 122)"

definition is_digit :: "char \<Rightarrow> bool" where
  "is_digit c = (let n = (of_char c :: nat) in 48 \<le> n \<and> n \<le> 57)"

definition is_alpha :: "char \<Rightarrow> bool" where
  "is_alpha c = (is_upper c \<or> is_lower c)"

definition is_alnum :: "char \<Rightarrow> bool" where
  "is_alnum c = (is_alpha c \<or> is_digit c)"

definition is_word :: "char \<Rightarrow> bool" where
  "is_word c = (is_alnum c \<or> c = CHR ''_'')"

definition is_space :: "char \<Rightarrow> bool" where
  "is_space c = (let n = (of_char c :: nat) in (9 \<le> n \<and> n \<le> 13) \<or> (28 \<le> n \<and> n \<le> 32))"

definition to_lower :: "char \<Rightarrow> char" where
  "to_lower c = (if is_upper c then char_of (of_char c + (32::nat)) else c)"

definition to_upper :: "char \<Rightarrow> char" where
  "to_upper c = (if is_lower c then char_of (of_char c - (32::nat)) else c)"

definition str_lower :: "string \<Rightarrow> string" where
  "str_lower s = map to_lower s"

definition startswith :: "string \<Rightarrow> string \<Rightarrow> bool" where
  "startswith s p = (take (length p) s = p)"

definition endswith :: "string \<Rightarrow> string \<Rightarrow> bool" where
  "endswith s p = (length p \<le> length s \<and> drop (length s - length p) s = p)"

section \<open>The brace splitter\<close>

text \<open>
  \<^verbatim>\<open>re.split(r"(\{.*?\})", text, flags=re.DOTALL)\<close>.
  \<open>match_braces\<close> is the regular expression anchored at the head of the string: an opening
  brace, then the shortest run of any characters (the lazy \<open>.*?\<close>, with DOTALL also line
  feeds) that a closing brace follows; its value is the length of the match.
  \<open>search_braces\<close> is the leftmost match: the text before it, the match and the text after.
  \<open>split_braces\<close> is \<open>re.split\<close> with one capturing group around the whole pattern: the
  text between the matches alternates with the matches themselves.
\<close>

definition match_braces :: "string \<Rightarrow> nat option" where
  "match_braces s =
     (case s of
        [] \<Rightarrow> None
      | c # cs \<Rightarrow>
          if c = CHR ''{'' \<and> CHR ''}'' \<in> set cs
          then Some (Suc (Suc (length (takeWhile (\<lambda>d. d \<noteq> CHR ''}'') cs))))
          else None)"

fun search_braces :: "string \<Rightarrow> (string \<times> string \<times> string) option" where
  "search_braces [] = None"
| "search_braces (c # cs) =
     (case match_braces (c # cs) of
        Some n \<Rightarrow> Some ([], take n (c # cs), drop n (c # cs))
      | None \<Rightarrow>
          (case search_braces cs of
             None \<Rightarrow> None
           | Some (pre, m, post) \<Rightarrow> Some (c # pre, m, post)))"

lemma match_braces_Some:
  assumes "match_braces s = Some n"
  shows "\<exists>body. take n s = CHR ''{'' # body @ [CHR ''}''] \<and> CHR ''}'' \<notin> set body
           \<and> n = length body + 2"
proof -
  from assms obtain cs where s: "s = CHR ''{'' # cs" and mem: "CHR ''}'' \<in> set cs"
    and n: "n = Suc (Suc (length (takeWhile (\<lambda>d. d \<noteq> CHR ''}'') cs)))"
    by (auto simp: match_braces_def split: list.splits if_splits)
  define body where "body = takeWhile (\<lambda>d. d \<noteq> CHR ''}'') cs"
  from mem have dw: "dropWhile (\<lambda>d. d \<noteq> CHR ''}'') cs \<noteq> []"
    by (simp add: dropWhile_eq_Nil_conv)
  then obtain r where r: "dropWhile (\<lambda>d. d \<noteq> CHR ''}'') cs = CHR ''}'' # r"
    using hd_dropWhile [OF dw] by (cases "dropWhile (\<lambda>d. d \<noteq> CHR ''}'') cs") auto
  have cs: "cs = body @ CHR ''}'' # r"
    using takeWhile_dropWhile_id [of "\<lambda>d. d \<noteq> CHR ''}''" cs] r by (simp add: body_def)
  have nb: "CHR ''}'' \<notin> set body"
    unfolding body_def by (auto dest: set_takeWhileD)
  have len: "n = length body + 2" using n by (simp add: body_def)
  have "take (length body + 2) (CHR ''{'' # body @ CHR ''}'' # r) = CHR ''{'' # body @ [CHR ''}'']"
    by simp
  with s cs len have "take n s = CHR ''{'' # body @ [CHR ''}'']" by simp
  with len nb show ?thesis by auto
qed

lemma search_braces_Some:
  "search_braces s = Some (pre, m, post) \<Longrightarrow>
     s = pre @ m @ post \<and> CHR ''{'' \<notin> set pre \<and>
     (\<exists>body. m = CHR ''{'' # body @ [CHR ''}''] \<and> CHR ''}'' \<notin> set body)"
proof (induction s arbitrary: pre)
  case Nil
  then show ?case by simp
next
  case (Cons c cs)
  show ?case
  proof (cases "match_braces (c # cs)")
    case (Some n)
    with Cons.prems have eqs: "pre = []" "m = take n (c # cs)" "post = drop n (c # cs)"
      by auto
    from match_braces_Some [OF Some] eqs show ?thesis
      by (auto simp del: append_take_drop_id simp: append_take_drop_id [symmetric])
  next
    case None
    with Cons.prems obtain pre' where s: "search_braces cs = Some (pre', m, post)"
      and pre: "pre = c # pre'"
      by (auto split: option.splits)
    from None have c: "c \<noteq> CHR ''{'' \<or> CHR ''}'' \<notin> set cs"
      by (auto simp: match_braces_def split: if_splits)
    from Cons.IH [OF s] have ih: "cs = pre' @ m @ post" "CHR ''{'' \<notin> set pre'"
      "\<exists>body. m = CHR ''{'' # body @ [CHR ''}''] \<and> CHR ''}'' \<notin> set body"
      by auto
    from ih(1) ih(3) have "CHR ''}'' \<in> set cs" by auto
    with c have "c \<noteq> CHR ''{''" by simp
    with ih pre show ?thesis by auto
  qed
qed

lemma search_braces_shorter:
  "search_braces s = Some (pre, m, post) \<Longrightarrow> length post < length s"
  by (drule search_braces_Some) auto

function split_braces :: "string \<Rightarrow> string list" where
  "split_braces s =
     (case search_braces s of
        None \<Rightarrow> [s]
      | Some (pre, m, post) \<Rightarrow> pre # m # split_braces post)"
  by pat_completeness auto
termination
  by (relation "measure length") (auto dest: search_braces_shorter)

declare split_braces.simps [simp del]

definition is_protected :: "string \<Rightarrow> bool" where
  \<comment> \<open>\<^verbatim>\<open>p.startswith("{") and p.endswith("}")\<close>\<close>
  "is_protected p = (startswith p ''{'' \<and> endswith p ''}'')"

text \<open>
  Two notions used to describe the segments. \<open>has_pair s\<close>: somewhere in \<open>s\<close> an opening brace
  is followed, not necessarily at once, by a closing brace. \<open>flat inside s\<close>: the braces of
  \<open>s\<close> are balanced and not nested, where \<open>inside\<close> tells whether a brace is open at the
  start of \<open>s\<close>.
\<close>

fun flat :: "bool \<Rightarrow> string \<Rightarrow> bool" where
  "flat inside [] = (\<not> inside)"
| "flat inside (c # cs) =
     (if c = CHR ''{'' then \<not> inside \<and> flat True cs
      else if c = CHR ''}'' then inside \<and> flat False cs
      else flat inside cs)"

definition has_pair :: "string \<Rightarrow> bool" where
  "has_pair s = (CHR ''}'' \<in> set (dropWhile (\<lambda>c. c \<noteq> CHR ''{'') s))"

section \<open>The entity protector\<close>

text \<open>
  The recogniser \<open>nlp\<close> is not part of the program: it is a parameter. \<open>nlp text\<close> stands
  for \<open>nlp(text).ents\<close>, the entities in the order the recogniser returns them, each with
  its character offsets and its label. Offsets are natural numbers, and \<open>slice\<close> is
  Python's \<open>text[i:j]\<close> on them: out of range it is cut short, and it is empty when
  \<open>j \<le> i\<close>.
  \<open>entity_spans\<close> is the list \<open>spans\<close> of \<open>brace_entities\<close>: the offsets of the entities with
  a label in \<open>ENTITY_LABELS\<close>. \<open>spans.sort()\<close> orders the pairs by start, then by end, as
  \<open>sort\<close> does on pairs of numbers. \<open>merge_step\<close> is the body of the loop that builds
  \<open>merged\<close>, and \<open>merge_spans\<close> the loop. \<open>emit_spans text lastpos merged\<close> is the list
  \<open>out\<close> that the second loop builds from the position \<open>lastpos\<close> on, the rest of the text
  after the last span included. \<open>brace_entities_parts\<close> is the list \<open>out\<close> of
  \<open>brace_entities_preserve_existing\<close> before it is joined; the lists of the other two passes
  are \<open>protect_acronyms_parts\<close> and \<open>sentence_case_parts\<close>.
\<close>

record ent =
  start_char :: nat
  end_char :: nat
  label :: string

type_synonym provider = "string \<Rightarrow> ent list"

definition ENTITY_LABELS :: "string set" where
  "ENTITY_LABELS =
     {''PERSON'', ''GPE'', ''LOC'', ''ORG'', ''NORP'', ''WORK_OF_ART'', ''EVENT'', ''PRODUCT''}"

definition slice :: "string \<Rightarrow> nat \<Rightarrow> nat \<Rightarrow> string" where
  "slice text i j = take (j - i) (drop i text)"

definition merge_step :: "(nat \<times> nat) list \<Rightarrow> nat \<times> nat \<Rightarrow> (nat \<times> nat) list" where
  "merge_step merged s =
     (case s of (a, b) \<Rightarrow>
        if merged = [] \<or> a > snd (last merged)
        then merged @ [(a, b)]
        else butlast merged @ [(fst (last merged), max (snd (last merged)) b)])"

definition merge_spans :: "(nat \<times> nat) list \<Rightarrow> (nat \<times> nat) list" where
  "merge_spans spans = foldl merge_step [] spans"

fun emit_spans :: "string \<Rightarrow> nat \<Rightarrow> (nat \<times> nat) list \<Rightarrow> string list" where
  "emit_spans text lastpos [] = [drop lastpos text]"
| "emit_spans text lastpos ((a, b) # merged) =
     slice text lastpos a # (''{'' @ slice text a b @ ''}'') # emit_spans text b merged"

definition entity_spans :: "provider \<Rightarrow> string \<Rightarrow> (nat \<times> nat) list" where
  "entity_spans nlp text =
     map (\<lambda>e. (start_char e, end_char e)) (filter (\<lambda>e. label e \<in> ENTITY_LABELS) (nlp text))"

definition brace_entities :: "provider \<Rightarrow> string \<Rightarrow> string" where
  "brace_entities nlp text =
     (let spans = entity_spans nlp text in
      if spans = [] then text
      else concat (emit_spans text 0 (merge_spans (sort spans))))"

definition brace_entities_parts :: "provider \<Rightarrow> string \<Rightarrow> string list" where
  "brace_entities_parts nlp title =
     map (\<lambda>p. if is_protected p then p else brace_entities nlp p) (split_braces title)"

definition brace_entities_preserve_existing :: "provider \<Rightarrow> string \<Rightarrow> string" where
  "brace_entities_preserve_existing nlp title = concat (brace_entities_parts nlp title)"

section \<open>The acronym protector\<close>

text \<open>
  \<open>backtrack ok lo hi\<close> is a greedy quantifier of a backtracking matcher: the engine first
  takes \<open>hi\<close> repetitions, the most there are, and gives them back one at a time, down to
  \<open>lo\<close>, until the rest of the pattern (\<open>ok\<close>) matches.
\<close>

fun backtrack :: "(nat \<Rightarrow> bool) \<Rightarrow> nat \<Rightarrow> nat \<Rightarrow> nat option" where
  "backtrack ok lo 0 = (if lo = 0 \<and> ok 0 then Some 0 else None)"
| "backtrack ok lo (Suc h) =
     (if Suc h < lo then None
      else if ok (Suc h) then Some (Suc h)
      else backtrack ok lo h)"

text \<open>
  \<^verbatim>\<open>_ACRONYM_TOKEN_RE = re.compile(r"\b([A-Z0-9]{2,}|(?=\w*\d)\w+)\b")\<close>.
  \<open>at_boundary prev rest\<close> is \<open>\<backslash>b\<close> at the position between the character \<open>prev\<close> (none
  at the start of the string) and the text \<open>rest\<close>. \<open>match_token prev s\<close> is the pattern
  anchored at the head of \<open>s\<close>, with \<open>prev\<close> the character before it: the length of the
  match, the first alternative tried first.
\<close>

definition at_boundary :: "char option \<Rightarrow> string \<Rightarrow> bool" where
  "at_boundary prev rest =
     ((case prev of None \<Rightarrow> False | Some p \<Rightarrow> is_word p)
        \<noteq> (case rest of [] \<Rightarrow> False | c # _ \<Rightarrow> is_word c))"

definition boundary_after :: "string \<Rightarrow> nat \<Rightarrow> bool" where
  "boundary_after s n = at_boundary (Some (s ! (n - 1))) (drop n s)"

definition is_AZ09 :: "char \<Rightarrow> bool" where
  "is_AZ09 c = (is_upper c \<or> is_digit c)"

definition match_alt1 :: "string \<Rightarrow> nat option" where
  "match_alt1 s = backtrack (boundary_after s) 2 (length (takeWhile is_AZ09 s))"

definition lookahead_digit :: "string \<Rightarrow> bool" where
  "lookahead_digit s =
     (backtrack (\<lambda>j. j < length s \<and> is_digit (s ! j)) 0 (length (takeWhile is_word s)) \<noteq> None)"

definition match_alt2 :: "string \<Rightarrow> nat option" where
  "match_alt2 s =
     (if lookahead_digit s
      then backtrack (boundary_after s) 1 (length (takeWhile is_word s))
      else None)"

definition match_token :: "char option \<Rightarrow> string \<Rightarrow> nat option" where
  "match_token prev s =
     (if at_boundary prev s
      then (case match_alt1 s of Some n \<Rightarrow> Some n | None \<Rightarrow> match_alt2 s)
      else None)"

definition repl :: "string \<Rightarrow> string" where
  "repl tok =
     (if (2 \<le> length tok \<and> list_all is_AZ09 tok) \<or> list_ex is_digit tok
      then ''{'' @ tok @ ''}''
      else tok)"

lemma backtrack_Some: "backtrack ok lo hi = Some n \<Longrightarrow> lo \<le> n \<and> n \<le> hi \<and> ok n"
  by (induction hi) (auto split: if_splits)

lemma match_token_pos: "match_token prev s = Some n \<Longrightarrow> 0 < n"
  by (auto simp: match_token_def match_alt1_def match_alt2_def
      split: if_splits option.splits dest!: backtrack_Some)

text \<open>
  \<open>acronym_sub prev s\<close> is \<^verbatim>\<open>_ACRONYM_TOKEN_RE.sub(repl, p)\<close> from a position on: \<open>s\<close> is
  the text not yet scanned and \<open>prev\<close> the character before it. Where the pattern matches,
  the replacement is emitted and the scan goes on after the match; elsewhere one character
  is copied.
\<close>

function acronym_sub :: "char option \<Rightarrow> string \<Rightarrow> string" where
  "acronym_sub prev [] = []"
| "acronym_sub prev (c # cs) =
     (case match_token prev (c # cs) of
        Some n \<Rightarrow>
          repl (take n (c # cs)) @ acronym_sub (Some ((c # cs) ! (n - 1))) (drop n (c # cs))
      | None \<Rightarrow> c # acronym_sub (Some c) cs)"
  by pat_completeness auto
termination
  by (relation "measure (\<lambda>(prev, s). length s)") (auto dest: match_token_pos)

declare acronym_sub.simps(2) [simp del]

definition protect_acronyms_parts :: "string \<Rightarrow> string list" where
  "protect_acronyms_parts chunk =
     map (\<lambda>p. if is_protected p then p else acronym_sub None p) (split_braces chunk)"

definition protect_acronyms_preserve_braces :: "string \<Rightarrow> string" where
  "protect_acronyms_preserve_braces chunk = concat (protect_acronyms_parts chunk)"

section \<open>The sentence caser\<close>

text \<open>
  \<open>has_letter\<close> is \<^verbatim>\<open>re.search(r"[a-zA-Z]", s)\<close>.
  \<open>cap_first\<close> is \<^verbatim>\<open>re.sub(r"^([^A-Za-z0-9]*)([A-Za-z])", ..., s, count=1)\<close>: the pattern is
  anchored at the start of the string, so there is one position to try.
  \<open>colon_sub\<close> is \<^verbatim>\<open>re.sub(r"(:\s*)([A-Za-z])", ..., s)\<close>; \<open>match_colon\<close> is its pattern
  anchored at the head of the string, with the number of white-space characters matched
  as its value.
\<close>

definition has_letter :: "string \<Rightarrow> bool" where
  "has_letter s = list_ex is_alpha s"

definition cap_first :: "string \<Rightarrow> string" where
  "cap_first s =
     (case backtrack (\<lambda>k. k < length s \<and> is_alpha (s ! k)) 0
             (length (takeWhile (\<lambda>c. \<not> is_alnum c) s)) of
        None \<Rightarrow> s
      | Some k \<Rightarrow> take k s @ to_upper (s ! k) # drop (Suc k) s)"

definition match_colon :: "string \<Rightarrow> nat option" where
  "match_colon s =
     (case s of
        [] \<Rightarrow> None
      | c # cs \<Rightarrow>
          if c = CHR '':''
          then backtrack (\<lambda>k. k < length cs \<and> is_alpha (cs ! k)) 0
                 (length (takeWhile is_space cs))
          else None)"

function colon_sub :: "string \<Rightarrow> string" where
  "colon_sub [] = []"
| "colon_sub (c # cs) =
     (case match_colon (c # cs) of
        Some k \<Rightarrow> c # take k cs @ to_upper (cs ! k) # colon_sub (drop (Suc k) cs)
      | None \<Rightarrow> c # colon_sub cs)"
  by pat_completeness auto
termination
  by (relation "measure length") auto

declare colon_sub.simps(2) [simp del]

text \<open>
  The loop of \<open>sentence_case_preserve_braces\<close> over the segments, with the flag
  \<open>is_first_part\<close> as its state.
\<close>

fun case_parts :: "bool \<Rightarrow> string list \<Rightarrow> string list" where
  "case_parts is_first_part [] = []"
| "case_parts is_first_part (p # ps) =
     (if is_protected p then p # case_parts is_first_part ps
      else
        let s = str_lower p in
        if is_first_part \<and> has_letter s
        then colon_sub (cap_first s) # case_parts False ps
        else colon_sub s # case_parts is_first_part ps)"

definition sentence_case_parts :: "string \<Rightarrow> string list" where
  "sentence_case_parts text = case_parts True (split_braces text)"

definition sentence_case_preserve_braces :: "string \<Rightarrow> string" where
  "sentence_case_preserve_braces text = concat (sentence_case_parts text)"

section \<open>The pipeline\<close>

definition process_title :: "provider \<Rightarrow> string \<Rightarrow> string \<times> bool" where
  "process_title nlp raw =
     (let step1 = brace_entities_preserve_existing nlp raw;
          step2 = protect_acronyms_preserve_braces step1;
          step3 = sentence_case_preserve_braces step2
      in (step3, step3 \<noteq> raw))"

section \<open>The recogniser's contract and a stub recogniser\<close>

text \<open>
  Modelled from the spec: the recogniser itself is not in the repository. Its interface
  contract is that the offsets it returns for \<open>text\<close> are half-open character ranges with
  \<open>start < end \<le> len(text)\<close>; \<open>spans_ok nlp text\<close> says that \<open>nlp\<close> keeps it on \<open>text\<close>.
  \<open>stub_nlp\<close> is a recogniser for the examples: it finds one work of art, in one title.
\<close>

definition spans_ok :: "provider \<Rightarrow> string \<Rightarrow> bool" where
  "spans_ok nlp text =
     list_all (\<lambda>e. start_char e < end_char e \<and> end_char e \<le> length text) (nlp text)"

definition stub_nlp :: provider where
  "stub_nlp text =
     (if text = ''the LORD of the RINGS: a STORY''
      then [\<lparr>start_char = 4, end_char = 8, label = ''WORK_OF_ART''\<rparr>]
      else [])"

section \<open>Notions used in the statements about the entity protector\<close>

text \<open>
  \<open>strip_braces\<close> deletes every brace of a string. \<open>chain lo ms\<close>: the spans \<open>ms\<close> are in
  ascending order from the offset \<open>lo\<close> on, none starts before the one before it ends and
  none ends before it starts. \<open>two_spans s1 s2\<close> is a recogniser that returns the two spans
  \<open>s1\<close> and \<open>s2\<close>, in this order, whatever the text.
\<close>

definition strip_braces :: "string \<Rightarrow> string" where
  "strip_braces s = filter (\<lambda>c. c \<noteq> CHR ''{'' \<and> c \<noteq> CHR ''}'') s"

fun chain :: "nat \<Rightarrow> (nat \<times> nat) list \<Rightarrow> bool" where
  "chain lo [] = True"
| "chain lo ((a, b) # ms) = (lo \<le> a \<and> a \<le> b \<and> chain b ms)"

definition two_spans :: "nat \<times> nat \<Rightarrow> nat \<times> nat \<Rightarrow> provider" where
  "two_spans s1 s2 text =
     [\<lparr>start_char = fst s1, end_char = snd s1, label = ''ORG''\<rparr>,
      \<lparr>start_char = fst s2, end_char = snd s2, label = ''PERSON''\<rparr>]"

section \<open>Tokens, as the description of the acronym protector has them\<close>

text \<open>
  The acronym protector is described by tokens: \<open>tokens p\<close> cuts \<open>p\<close>, from left to right,
  into the longest runs of word characters and the single characters between them. A token
  \<open>qualifies\<close> when it has two or more characters, all of them upper-case letters or
  digits, or when it is a run of word characters with a digit among them.
  \<open>protect_token\<close> wraps a token that qualifies in a brace pair of its own and leaves any
  other token as it is; \<open>protect_tokens\<close> does so for every token of a segment.
  \<open>in_word prev\<close>: the character before the current position is a word character.
\<close>

function tokens :: "string \<Rightarrow> string list" where
  "tokens [] = []"
| "tokens (c # cs) =
     (if is_word c
      then takeWhile is_word (c # cs) # tokens (dropWhile is_word (c # cs))
      else [c] # tokens cs)"
  by pat_completeness auto
termination
  by (relation "measure length") (auto simp: less_Suc_eq_le length_dropWhile_le)

declare tokens.simps(2) [simp del]

definition qualifies :: "string \<Rightarrow> bool" where
  "qualifies w =
     ((2 \<le> length w \<and> list_all is_AZ09 w) \<or>
      (w \<noteq> [] \<and> list_all is_word w \<and> list_ex is_digit w))"

definition protect_token :: "string \<Rightarrow> string" where
  "protect_token w = (if qualifies w then ''{'' @ w @ ''}'' else w)"

definition protect_tokens :: "string \<Rightarrow> string" where
  "protect_tokens p = concat (map protect_token (tokens p))"

definition in_word :: "char option \<Rightarrow> bool" where
  "in_word prev = (case prev of None \<Rightarrow> False | Some p \<Rightarrow> is_word p)"

section \<open>The colon rule as one pass over a segment\<close>

text \<open>
  \<open>colon_scan armed s\<close> goes through \<open>s\<close> once; \<open>armed\<close> says that a colon and then only
  white space have just been read. A letter read while armed is upper-cased.
\<close>

fun colon_scan :: "bool \<Rightarrow> string \<Rightarrow> string" where
  "colon_scan armed [] = []"
| "colon_scan armed (c # cs) =
     (if armed \<and> is_alpha c then to_upper c # colon_scan False cs
      else c # colon_scan (c = CHR '':'' \<or> (armed \<and> is_space c)) cs)"

section \<open>Stable detection\<close>

text \<open>
  \<open>entities_stable nlp r\<close>: on every segment of \<open>r\<close> that is not protected the recogniser
  returns no span with a recognised label. \<open>acronyms_stable r\<close>: no token of a segment of
  \<open>r\<close> that is not protected qualifies for protection.
\<close>

definition entities_stable :: "provider \<Rightarrow> string \<Rightarrow> bool" where
  "entities_stable nlp r =
     list_all (\<lambda>p. is_protected p \<or> entity_spans nlp p = []) (split_braces r)"

definition acronyms_stable :: "string \<Rightarrow> bool" where
  "acronyms_stable r =
     list_all (\<lambda>p. is_protected p \<or> list_all (\<lambda>w. \<not> qualifies w) (tokens p))
       (split_braces r)"

section \<open>Properties of the brace splitter\<close>

lemma split_braces_None: "search_braces s = None \<Longrightarrow> split_braces s = [s]"
  by (simp add: split_braces.simps [of s])

lemma split_braces_Some:
  "search_braces s = Some (pre, m, post) \<Longrightarrow> split_braces s = pre # m # split_braces post"
  by (simp add: split_braces.simps [of s])

lemma search_braces_None: "search_braces s = None \<Longrightarrow> \<not> has_pair s"
proof (induction s)
  case Nil
  then show ?case by (simp add: has_pair_def)
next
  case (Cons c cs)
  from Cons.prems have m: "match_braces (c # cs) = None" and s: "search_braces cs = None"
    by (auto split: option.splits)
  from m have c: "c \<noteq> CHR ''{'' \<or> CHR ''}'' \<notin> set cs"
    by (auto simp: match_braces_def split: if_splits)
  from Cons.IH [OF s] have ih: "\<not> has_pair cs" .
  show ?case
  proof (cases "c = CHR ''{''")
    case True
    with c show ?thesis by (simp add: has_pair_def)
  next
    case False
    with ih show ?thesis by (simp add: has_pair_def)
  qed
qed

lemma has_pair_iff: "has_pair s \<longleftrightarrow> (\<exists>u v w. s = u @ CHR ''{'' # v @ CHR ''}'' # w)"
proof
  assume "has_pair s"
  then have mem: "CHR ''}'' \<in> set (dropWhile (\<lambda>c. c \<noteq> CHR ''{'') s)" by (simp add: has_pair_def)
  then have ne: "dropWhile (\<lambda>c. c \<noteq> CHR ''{'') s \<noteq> []"
    by (auto simp del: dropWhile_eq_Nil_conv)
  then obtain r where r: "dropWhile (\<lambda>c. c \<noteq> CHR ''{'') s = CHR ''{'' # r"
    using hd_dropWhile [OF ne] by (cases "dropWhile (\<lambda>c. c \<noteq> CHR ''{'') s") auto
  with mem have "CHR ''}'' \<in> set r" by auto
  then obtain v w where "r = v @ CHR ''}'' # w"
    using split_list [of "CHR ''}''" r] by blast
  with r have "s = takeWhile (\<lambda>c. c \<noteq> CHR ''{'') s @ CHR ''{'' # v @ CHR ''}'' # w"
    using takeWhile_dropWhile_id [of "\<lambda>c. c \<noteq> CHR ''{''" s] by simp
  then show "\<exists>u v w. s = u @ CHR ''{'' # v @ CHR ''}'' # w" by blast
next
  assume "\<exists>u v w. s = u @ CHR ''{'' # v @ CHR ''}'' # w"
  then obtain u v w where s: "s = u @ CHR ''{'' # v @ CHR ''}'' # w" by blast
  show "has_pair s"
  proof (cases "CHR ''{'' \<in> set u")
    case False
    then have "dropWhile (\<lambda>c. c \<noteq> CHR ''{'') s = CHR ''{'' # v @ CHR ''}'' # w"
      unfolding s by (simp add: dropWhile_append)
    then show ?thesis by (simp add: has_pair_def)
  next
    case True
    then obtain u1 u2 where u: "u = u1 @ CHR ''{'' # u2" "CHR ''{'' \<notin> set u1"
      using split_list_first [of "CHR ''{''" u] by blast
    then have "dropWhile (\<lambda>c. c \<noteq> CHR ''{'') s = CHR ''{'' # u2 @ CHR ''{'' # v @ CHR ''}'' # w"
      unfolding s by (simp add: dropWhile_append)
    then show ?thesis by (simp add: has_pair_def)
  qed
qed

lemma flat_inside_closes: "flat True s \<Longrightarrow> CHR ''}'' \<in> set s"
  by (induction s) (auto split: if_splits)

lemma flat_no_match:
  "flat False s \<Longrightarrow> search_braces s = None \<Longrightarrow> CHR ''{'' \<notin> set s \<and> CHR ''}'' \<notin> set s"
proof (induction s)
  case Nil
  then show ?case by simp
next
  case (Cons c cs)
  from Cons.prems(2) have m: "match_braces (c # cs) = None" and s: "search_braces cs = None"
    by (auto split: option.splits)
  show ?case
  proof (cases "c = CHR ''{''")
    case True
    with Cons.prems(1) have "CHR ''}'' \<in> set cs" by (auto dest: flat_inside_closes)
    with True m show ?thesis by (simp add: match_braces_def)
  next
    case False
    with Cons.prems(1) have "c \<noteq> CHR ''}''" "flat False cs" by (auto split: if_splits)
    with False Cons.IH [OF _ s] show ?thesis by simp
  qed
qed

lemma flat_outside_prefix:
  "flat False (pre @ r) \<Longrightarrow> CHR ''{'' \<notin> set pre \<Longrightarrow> CHR ''}'' \<notin> set pre \<and> flat False r"
  by (induction pre) (auto split: if_splits)

lemma flat_inside_body:
  "flat True (body @ CHR ''}'' # post) \<Longrightarrow> CHR ''}'' \<notin> set body \<Longrightarrow>
     CHR ''{'' \<notin> set body \<and> flat False post"
  by (induction body) (auto split: if_splits)

lemma split_braces_odd_length: "odd (length (split_braces s))"
proof (induction s rule: split_braces.induct)
  case (1 s)
  show ?case
  proof (cases "search_braces s")
    case None
    then show ?thesis by (simp add: split_braces_None)
  next
    case (Some t)
    then obtain pre m post where t: "search_braces s = Some (pre, m, post)" by (cases t) auto
    from "1" [OF t] show ?thesis by (simp add: split_braces_Some [OF t])
  qed
qed

lemma split_braces_odd_segments:
  "i < length (split_braces s) \<Longrightarrow> odd i \<Longrightarrow>
     \<exists>body. split_braces s ! i = CHR ''{'' # body @ [CHR ''}''] \<and> CHR ''}'' \<notin> set body"
proof (induction s arbitrary: i rule: split_braces.induct)
  case (1 s)
  show ?case
  proof (cases "search_braces s")
    case None
    with "1.prems" show ?thesis by (simp add: split_braces_None)
  next
    case (Some t)
    then obtain pre m post where t: "search_braces s = Some (pre, m, post)" by (cases t) auto
    note sp = split_braces_Some [OF t]
    from "1.prems"(2) obtain j where "i = Suc 0 \<or> i = Suc (Suc j)"
      by (cases i; cases "i - 1") auto
    then show ?thesis
    proof
      assume i: "i = Suc 0"
      from search_braces_Some [OF t] obtain body
        where "m = CHR ''{'' # body @ [CHR ''}'']" "CHR ''}'' \<notin> set body" by blast
      with i show ?thesis by (simp add: sp)
    next
      assume i: "i = Suc (Suc j)"
      with "1.prems" have "j < length (split_braces post)" "odd j" by (simp_all add: sp)
      from "1.IH" [OF t refl refl this] i show ?thesis by (simp add: sp)
    qed
  qed
qed

lemma split_braces_even_segments:
  "i < length (split_braces s) \<Longrightarrow> even i \<Longrightarrow>
     \<not> has_pair (split_braces s ! i) \<and>
     (Suc i < length (split_braces s) \<longrightarrow> CHR ''{'' \<notin> set (split_braces s ! i))"
proof (induction s arbitrary: i rule: split_braces.induct)
  case (1 s)
  show ?case
  proof (cases "search_braces s")
    case None
    with "1.prems" show ?thesis by (simp add: split_braces_None search_braces_None)
  next
    case (Some t)
    then obtain pre m post where t: "search_braces s = Some (pre, m, post)" by (cases t) auto
    note sp = split_braces_Some [OF t]
    from "1.prems"(2) obtain j where "i = 0 \<or> i = Suc (Suc j)"
      by (cases i; cases "i - 1") auto
    then show ?thesis
    proof
      assume "i = 0"
      moreover from search_braces_Some [OF t] have "CHR ''{'' \<notin> set pre" by simp
      moreover from this have "\<not> has_pair pre" by (auto simp: has_pair_iff)
      ultimately show ?thesis by (simp add: sp)
    next
      assume i: "i = Suc (Suc j)"
      with "1.prems" have "j < length (split_braces post)" "even j" by (simp_all add: sp)
      from "1.IH" [OF t refl refl this] i show ?thesis by (simp add: sp)
    qed
  qed
qed

lemma split_braces_flat:
  "flat False s \<Longrightarrow> i < length (split_braces s) \<Longrightarrow>
     (even i \<longrightarrow> CHR ''{'' \<notin> set (split_braces s ! i) \<and> CHR ''}'' \<notin> set (split_braces s ! i)) \<and>
     (odd i \<longrightarrow> (\<exists>body. split_braces s ! i = CHR ''{'' # body @ [CHR ''}''] \<and>
                   CHR ''{'' \<notin> set body \<and> CHR ''}'' \<notin> set body))"
proof (induction s arbitrary: i rule: split_braces.induct)
  case (1 s)
  show ?case
  proof (cases "search_braces s")
    case None
    with "1.prems" flat_no_match [of s] show ?thesis by (simp add: split_braces_None)
  next
    case (Some t)
    then obtain pre m post where t: "search_braces s = Some (pre, m, post)" by (cases t) auto
    note sp = split_braces_Some [OF t]
    from search_braces_Some [OF t] obtain body where s: "s = pre @ m @ post"
      and pre: "CHR ''{'' \<notin> set pre" and m: "m = CHR ''{'' # body @ [CHR ''}'']"
      and body: "CHR ''}'' \<notin> set body" by blast
    from "1.prems"(1) s pre have p1: "CHR ''}'' \<notin> set pre" and f1: "flat False (m @ post)"
      using flat_outside_prefix [of pre "m @ post"] by auto
    from f1 m have "flat True (body @ CHR ''}'' # post)" by simp
    with body have p2: "CHR ''{'' \<notin> set body" and f2: "flat False post"
      using flat_inside_body [of body post] by auto
    obtain j where "i = 0 \<or> i = Suc 0 \<or> i = Suc (Suc j)"
      by (cases i; cases "i - 1") auto
    then show ?thesis
    proof (elim disjE)
      assume "i = 0"
      with pre p1 show ?thesis by (simp add: sp)
    next
      assume "i = Suc 0"
      with m body p2 show ?thesis by (simp add: sp)
    next
      assume i: "i = Suc (Suc j)"
      with "1.prems" have "j < length (split_braces post)" by (simp add: sp)
      from "1.IH" [OF t refl refl f2 this] i show ?thesis by (simp add: sp)
    qed
  qed
qed

lemma concat_split_braces: "concat (split_braces s) = s"
proof (induction s rule: split_braces.induct)
  case (1 s)
  show ?case
  proof (cases "search_braces s")
    case None
    then show ?thesis by (simp add: split_braces.simps [of s])
  next
    case (Some t)
    then obtain pre m post where t: "search_braces s = Some (pre, m, post)"
      by (cases t) auto
    from "1" [OF t] have ih: "concat (split_braces post) = post" by simp
    from search_braces_Some [OF t] have s: "s = pre @ m @ post" by simp
    from t have "split_braces s = pre # m # split_braces post"
      by (simp add: split_braces.simps [of s])
    with ih s show ?thesis by simp
  qed
qed

text \<open>
  C2. Concatenating, in order, the segments that \<open>split_braces\<close> returns gives back the
  input string, for every input.
\<close>

theorem split_braces_concat: "concat (split_braces s) = s"
  by (rule concat_split_braces)

text \<open>
  C9 (as amended). For every input, each segment at an odd position of the result of
  \<open>split_braces\<close> starts with an opening brace, ends with a closing brace and has no other
  closing brace (it is the shortest span from an opening brace to the next closing one),
  and no segment at an even position has an opening brace that a closing brace follows.
  When the braces of the input are balanced and not nested, each segment at an even
  position contains no brace at all and each segment at an odd position is one brace pair
  around text without braces. The two adjacent spans of \<open>{A}{B}\<close> are two segments.
\<close>

theorem split_braces_segment_shape:
  "(i < length (split_braces s) \<longrightarrow>
     (odd i \<longrightarrow> (\<exists>body. split_braces s ! i = CHR ''{'' # body @ [CHR ''}''] \<and>
                  CHR ''}'' \<notin> set body)) \<and>
     (even i \<longrightarrow> \<not> has_pair (split_braces s ! i)) \<and>
     (flat False s \<longrightarrow>
        (even i \<longrightarrow> CHR ''{'' \<notin> set (split_braces s ! i) \<and>
                   CHR ''}'' \<notin> set (split_braces s ! i)) \<and>
        (odd i \<longrightarrow> (\<exists>body. split_braces s ! i = CHR ''{'' # body @ [CHR ''}''] \<and>
                   CHR ''{'' \<notin> set body \<and> CHR ''}'' \<notin> set body)))) \<and>
   split_braces ''{A}{B}'' = ['''', ''{A}'', '''', ''{B}'', '''']"
proof -
  have "split_braces ''{A}{B}'' = ['''', ''{A}'', '''', ''{B}'', '''']"
    by code_simp
  then show ?thesis
    using split_braces_odd_segments [of i s] split_braces_even_segments [of i s]
      split_braces_flat [of s i] by blast
qed

theorem split_braces_segment_shape_witness:
  "Suc 0 < length (split_braces ''{A}{B}'') \<and> odd (Suc 0) \<and> flat False ''{A}{B}'' \<and>
   (\<exists>body. split_braces ''{A}{B}'' ! Suc 0 = CHR ''{'' # body @ [CHR ''}''] \<and>
            CHR ''{'' \<notin> set body \<and> CHR ''}'' \<notin> set body)"
proof -
  have sp: "split_braces ''{A}{B}'' = ['''', ''{A}'', '''', ''{B}'', '''']"
    by code_simp
  from split_braces_segment_shape [of "Suc 0" "''{A}{B}''"] show ?thesis
    by (simp add: sp)
qed

text \<open>
  The claim as it was stated fails on nested braces: the segments of \<open>{{A}}\<close> are the empty
  string, \<open>{{A}\<close> and \<open>}\<close>, and the last one contains a brace and is not wrapped in a brace
  pair.
\<close>

theorem split_braces_shape_counterexample:
  "split_braces ''{{A}}'' = ['''', ''{{A}'', ''}''] \<and> \<not> is_protected ''}'' \<and>
   CHR ''}'' \<in> set ''}''"
  by code_simp

lemma is_protected_wrapped: "is_protected (CHR ''{'' # body @ [CHR ''}''])"
  by (simp add: is_protected_def startswith_def endswith_def)

lemma is_protected_iff:
  "is_protected p \<longleftrightarrow> p \<noteq> [] \<and> hd p = CHR ''{'' \<and> last p = CHR ''}''"
proof (cases p rule: rev_cases)
  case Nil
  then show ?thesis by (simp add: is_protected_def startswith_def endswith_def)
next
  case (snoc ys y)
  then show ?thesis
    by (cases ys) (auto simp: is_protected_def startswith_def endswith_def)
qed

lemma split_braces_odd_protected:
  "i < length (split_braces s) \<Longrightarrow> odd i \<Longrightarrow> is_protected (split_braces s ! i)"
  using split_braces_odd_segments [of i s] is_protected_wrapped by auto

lemma length_case_parts: "length (case_parts f ps) = length ps"
  by (induction ps arbitrary: f) (auto simp: Let_def)

lemma case_parts_protected:
  "i < length ps \<Longrightarrow> is_protected (ps ! i) \<Longrightarrow> case_parts f ps ! i = ps ! i"
proof (induction ps arbitrary: f i)
  case Nil
  then show ?case by simp
next
  case (Cons p ps)
  show ?case
  proof (cases i)
    case 0
    with Cons.prems show ?thesis by simp
  next
    case (Suc j)
    with Cons.prems have "j < length ps" "is_protected (ps ! j)" by simp_all
    with Cons.IH Suc show ?thesis by (simp add: Let_def)
  qed
qed

section \<open>Protected segments in the three passes\<close>

text \<open>
  C3. Each pass handles the title segment by segment and joins the results. A segment
  that is wrapped in a brace pair (as every segment that the splitter returns at an odd
  position is) comes out of the entity protector, of the acronym protector and of the
  sentence caser exactly as it went in: nothing inside it is re-cased and no second brace
  pair is put around it.
\<close>

theorem protected_segments_preserved:
  "i < length (split_braces title) \<Longrightarrow>
   (odd i \<longrightarrow> is_protected (split_braces title ! i)) \<and>
   (is_protected (split_braces title ! i) \<longrightarrow>
      brace_entities_preserve_existing nlp title = concat (brace_entities_parts nlp title) \<and>
      length (brace_entities_parts nlp title) = length (split_braces title) \<and>
      brace_entities_parts nlp title ! i = split_braces title ! i \<and>
      protect_acronyms_preserve_braces title = concat (protect_acronyms_parts title) \<and>
      length (protect_acronyms_parts title) = length (split_braces title) \<and>
      protect_acronyms_parts title ! i = split_braces title ! i \<and>
      sentence_case_preserve_braces title = concat (sentence_case_parts title) \<and>
      length (sentence_case_parts title) = length (split_braces title) \<and>
      sentence_case_parts title ! i = split_braces title ! i)"
  by (simp add: split_braces_odd_protected brace_entities_preserve_existing_def
      brace_entities_parts_def protect_acronyms_preserve_braces_def protect_acronyms_parts_def
      sentence_case_preserve_braces_def sentence_case_parts_def length_case_parts
      case_parts_protected)

theorem protected_segments_preserved_witness:
  "Suc 0 < length (split_braces ''the {nasa} Story'') \<and>
   is_protected (split_braces ''the {nasa} Story'' ! Suc 0) \<and>
   brace_entities_parts stub_nlp ''the {nasa} Story'' ! Suc 0 = ''{nasa}'' \<and>
   protect_acronyms_parts ''the {nasa} Story'' ! Suc 0 = ''{nasa}'' \<and>
   sentence_case_parts ''the {nasa} Story'' ! Suc 0 = ''{nasa}''"
proof -
  have sp: "split_braces ''the {nasa} Story'' = [''the '', ''{nasa}'', '' Story'']"
    by code_simp
  have "Suc 0 < length (split_braces ''the {nasa} Story'')" by (simp add: sp)
  from protected_segments_preserved [OF this, of stub_nlp] show ?thesis
    by (simp add: sp)
qed

section \<open>The pipeline is total\<close>

lemma split_braces_Nil: "split_braces [] = [[]]"
  by (simp add: split_braces.simps [of "[]"])

lemma process_title_empty:
  "entity_spans nlp [] = [] \<Longrightarrow> process_title nlp [] = ([], False)"
  by (simp add: process_title_def brace_entities_preserve_existing_def brace_entities_parts_def
      protect_acronyms_preserve_braces_def protect_acronyms_parts_def
      sentence_case_preserve_braces_def sentence_case_parts_def split_braces_Nil
      is_protected_def startswith_def brace_entities_def str_lower_def has_letter_def)

lemma spans_ok_empty: "spans_ok nlp [] \<Longrightarrow> entity_spans nlp [] = []"
proof -
  assume "spans_ok nlp []"
  then have "nlp [] = []"
    by (cases "nlp []") (auto simp: spans_ok_def)
  then show ?thesis by (simp add: entity_spans_def)
qed



section \<open>The entity protector and the acronym protector insert braces only\<close>

lemma merge_spans_snoc: "merge_spans (spans @ [s]) = merge_step (merge_spans spans) s"
  by (simp add: merge_spans_def)

lemma merge_spans_two:
  "merge_spans [(a1, b1), (a2, b2)] =
     (if a2 \<le> b1 then [(a1, max b1 b2)] else [(a1, b1), (a2, b2)])"
  by (simp add: merge_spans_def merge_step_def)

lemma chain_snoc:
  "chain lo (m @ [(a, b)]) \<longleftrightarrow>
     chain lo m \<and> (if m = [] then lo else snd (last m)) \<le> a \<and> a \<le> b"
  by (induction lo m rule: chain.induct) auto

lemma chain_merge_step:
  assumes "chain lo m" and "a \<le> b" and "lo \<le> a"
  shows "chain lo (merge_step m (a, b))"
proof (cases "m = [] \<or> snd (last m) < a")
  case True
  with assms show ?thesis by (auto simp: merge_step_def chain_snoc)
next
  case False
  then have ne: "m \<noteq> []" and le: "a \<le> snd (last m)" by auto
  obtain c d where l: "last m = (c, d)" by (cases "last m")
  from ne l have m: "m = butlast m @ [(c, d)]" by (metis append_butlast_last_id)
  from assms(1) have "chain lo (butlast m @ [(c, d)])" using m by simp
  then have "chain lo (butlast m @ [(c, max d b)])" by (auto simp: chain_snoc)
  with False l show ?thesis by (simp add: merge_step_def)
qed

lemma chain_foldl_merge:
  "chain 0 m \<Longrightarrow> \<forall>s \<in> set spans. fst s \<le> snd s \<Longrightarrow> chain 0 (foldl merge_step m spans)"
proof (induction spans arbitrary: m)
  case Nil
  then show ?case by simp
next
  case (Cons s spans)
  obtain a b where s: "s = (a, b)" by (cases s)
  with Cons.prems have "chain 0 (merge_step m (a, b))" by (auto intro: chain_merge_step)
  with Cons.IH [of "merge_step m s"] Cons.prems s show ?case by simp
qed

lemma chain_merge_spans:
  "\<forall>s \<in> set spans. fst s \<le> snd s \<Longrightarrow> chain 0 (merge_spans spans)"
  unfolding merge_spans_def by (rule chain_foldl_merge) simp_all

lemma slice_drop: "i \<le> j \<Longrightarrow> slice text i j @ drop j text = drop i text"
proof -
  assume "i \<le> j"
  then have "drop j text = drop (j - i) (drop i text)" by simp
  then show ?thesis unfolding slice_def by (metis append_take_drop_id)
qed

lemma strip_braces_append [simp]: "strip_braces (xs @ ys) = strip_braces xs @ strip_braces ys"
  by (simp add: strip_braces_def)

lemma strip_braces_Nil [simp]: "strip_braces [] = []"
  by (simp add: strip_braces_def)

lemma strip_braces_Cons [simp]:
  "strip_braces (c # s) =
     (if c = CHR ''{'' \<or> c = CHR ''}'' then strip_braces s else c # strip_braces s)"
  by (simp add: strip_braces_def)

lemma strip_braces_concat: "strip_braces (concat xss) = concat (map strip_braces xss)"
  by (induction xss) simp_all


lemma strip_emit_spans:
  "chain lo ms \<Longrightarrow> strip_braces (concat (emit_spans text lo ms)) = strip_braces (drop lo text)"
proof (induction lo ms rule: chain.induct)
  case (1 lo)
  then show ?case by simp
next
  case (2 lo a b ms)
  then have ih: "strip_braces (concat (emit_spans text b ms)) = strip_braces (drop b text)"
    and le: "lo \<le> a" "a \<le> b" by simp_all
  have "strip_braces (drop lo text)
      = strip_braces (slice text lo a @ slice text a b @ drop b text)"
    using slice_drop [OF le(1), of "text"] slice_drop [OF le(2), of "text"] by simp
  with ih show ?case by simp
qed

lemma strip_brace_entities:
  assumes "spans_ok nlp text"
  shows "strip_braces (brace_entities nlp text) = strip_braces text"
proof -
  have "\<forall>s \<in> set (entity_spans nlp text). fst s \<le> snd s"
    using assms by (auto simp: spans_ok_def entity_spans_def list_all_iff)
  then have "\<forall>s \<in> set (sort (entity_spans nlp text)). fst s \<le> snd s" by simp
  then have "chain 0 (merge_spans (sort (entity_spans nlp text)))"
    by (rule chain_merge_spans)
  from strip_emit_spans [OF this, of "text"] show ?thesis
    by (simp add: brace_entities_def Let_def)
qed

lemma strip_repl: "strip_braces (repl tok) = strip_braces tok"
  by (simp add: repl_def)

lemma strip_acronym_sub: "strip_braces (acronym_sub prev s) = strip_braces s"
proof (induction prev s rule: acronym_sub.induct)
  case (1 prev)
  then show ?case by simp
next
  case (2 prev c cs)
  show ?case
  proof (cases "match_token prev (c # cs)")
    case None
    with 2 show ?thesis by (simp add: acronym_sub.simps(2))
  next
    case (Some n)
    with 2 have ih: "strip_braces (acronym_sub (Some ((c # cs) ! (n - 1))) (drop n (c # cs)))
        = strip_braces (drop n (c # cs))" by simp
    have "strip_braces (take n (c # cs)) @ strip_braces (drop n (c # cs)) = strip_braces (c # cs)"
      by (metis strip_braces_append append_take_drop_id)
    with ih Some show ?thesis by (simp add: acronym_sub.simps(2) strip_repl)
  qed
qed

lemma strip_protect_acronyms:
  "strip_braces (protect_acronyms_preserve_braces chunk) = strip_braces chunk"
proof -
  have "map strip_braces (protect_acronyms_parts chunk) = map strip_braces (split_braces chunk)"
    by (simp add: protect_acronyms_parts_def strip_acronym_sub)
  then have "strip_braces (protect_acronyms_preserve_braces chunk)
      = strip_braces (concat (split_braces chunk))"
    by (simp add: protect_acronyms_preserve_braces_def strip_braces_concat)
  then show ?thesis by (simp add: concat_split_braces)
qed

text \<open>
  C10. Deleting the braces from the result of \<open>brace_entities\<close> gives the text with its
  braces deleted, when the spans of the recogniser lie within the text; and deleting the
  braces from the result of \<open>protect_acronyms_preserve_braces\<close> gives the input with its
  braces deleted. So the two passes add braces and nothing else: no other character is
  added, removed, changed or moved.
\<close>

theorem passes_only_insert_braces:
  "(spans_ok nlp text \<longrightarrow> strip_braces (brace_entities nlp text) = strip_braces text) \<and>
   strip_braces (protect_acronyms_preserve_braces chunk) = strip_braces chunk"
  by (simp add: strip_brace_entities strip_protect_acronyms)

theorem passes_only_insert_braces_witness:
  "spans_ok stub_nlp ''the LORD of the RINGS: a STORY'' \<and>
   brace_entities stub_nlp ''the LORD of the RINGS: a STORY'' = ''the {LORD} of the RINGS: a STORY'' \<and>
   strip_braces (brace_entities stub_nlp ''the LORD of the RINGS: a STORY'')
     = strip_braces ''the LORD of the RINGS: a STORY''"
proof -
  have ok: "spans_ok stub_nlp ''the LORD of the RINGS: a STORY''"
    by (simp add: spans_ok_def stub_nlp_def)
  have ev: "brace_entities stub_nlp ''the LORD of the RINGS: a STORY''
      = ''the {LORD} of the RINGS: a STORY''" by code_simp
  from passes_only_insert_braces [of stub_nlp "''the LORD of the RINGS: a STORY''"] ok ev
  show ?thesis by simp
qed

section \<open>Merging the entity spans\<close>

text \<open>
  C5. Going through the sorted spans, the next span \<open>(a, b)\<close> is merged into the last
  merged span exactly when \<open>a\<close> is at most the end of that span, and starts a new merged
  span otherwise. So of two spans in ascending order, the second is merged into the first
  when it starts at or before the end of the first. The adjacent spans \<open>[0,3)\<close> and
  \<open>[3,5)\<close> become one protected span; \<open>[0,3)\<close> and \<open>[5,8)\<close> stay two, and the text
  between them and after them is as it was.
\<close>

theorem merge_spans_rule:
  "merge_spans (spans @ [(a, b)]) =
     (if merge_spans spans = [] \<or> snd (last (merge_spans spans)) < a
      then merge_spans spans @ [(a, b)]
      else butlast (merge_spans spans)
             @ [(fst (last (merge_spans spans)), max (snd (last (merge_spans spans))) b)]) \<and>
   merge_spans [(a1, b1), (a2, b2)] =
     (if a2 \<le> b1 then [(a1, max b1 b2)] else [(a1, b1), (a2, b2)]) \<and>
   brace_entities (two_spans (0, 3) (3, 5)) ''abcdefgh'' = ''{abcde}fgh'' \<and>
   brace_entities (two_spans (0, 3) (5, 8)) ''abcdefgh'' = ''{abc}de{fgh}''"
proof -
  have "brace_entities (two_spans (0, 3) (3, 5)) ''abcdefgh'' = ''{abcde}fgh''"
    by code_simp
  moreover have "brace_entities (two_spans (0, 3) (5, 8)) ''abcdefgh'' = ''{abc}de{fgh}''"
    by code_simp
  ultimately show ?thesis
    by (simp add: merge_spans_snoc merge_spans_two merge_step_def)
qed

section \<open>The acronym pattern matches whole tokens\<close>

lemma is_digit_word: "is_digit c \<Longrightarrow> is_word c"
  by (simp add: is_word_def is_alnum_def)

lemma is_AZ09_word: "is_AZ09 c \<Longrightarrow> is_word c"
  by (auto simp: is_AZ09_def is_word_def is_alnum_def is_alpha_def)

lemma backtrack_None_iff:
  "backtrack ok lo hi = None \<longleftrightarrow> (\<forall>n. lo \<le> n \<and> n \<le> hi \<longrightarrow> \<not> ok n)"
proof (induction hi)
  case 0
  then show ?case by auto
next
  case (Suc h)
  show ?case
  proof (cases "Suc h < lo")
    case True
    then show ?thesis by auto
  next
    case False
    show ?thesis
    proof (cases "ok (Suc h)")
      case True
      with False have "lo \<le> Suc h \<and> Suc h \<le> Suc h \<and> ok (Suc h)" by simp
      then have "\<not> (\<forall>n. lo \<le> n \<and> n \<le> Suc h \<longrightarrow> \<not> ok n)" by blast
      with True False show ?thesis by simp
    next
      case nok: False
      have "(\<forall>n. lo \<le> n \<and> n \<le> Suc h \<longrightarrow> \<not> ok n) \<longleftrightarrow> (\<forall>n. lo \<le> n \<and> n \<le> h \<longrightarrow> \<not> ok n)"
        using nok by (auto simp: le_Suc_eq)
      with Suc nok False show ?thesis by simp
    qed
  qed
qed

lemma backtrack_top:
  "lo \<le> hi \<Longrightarrow> ok hi \<Longrightarrow> backtrack ok lo hi = Some hi"
  by (cases hi) auto

lemma backtrack_only_top:
  assumes "\<forall>n. lo \<le> n \<and> n < hi \<longrightarrow> \<not> ok n"
  shows "backtrack ok lo hi = (if lo \<le> hi \<and> ok hi then Some hi else None)"
proof (cases "lo \<le> hi \<and> ok hi")
  case True
  then show ?thesis by (simp add: backtrack_top)
next
  case False
  with assms have "\<forall>n. lo \<le> n \<and> n \<le> hi \<longrightarrow> \<not> ok n"
    by (metis le_neq_implies_less)
  then have "backtrack ok lo hi = None" by (simp add: backtrack_None_iff)
  with False show ?thesis by auto
qed
lemma word_at: "n < length (takeWhile is_word s) \<Longrightarrow> is_word (s ! n)"
  by (metis nth_mem set_takeWhileD takeWhile_nth)

lemma length_takeWhile_le_length: "length (takeWhile P s) \<le> length s"
  by (induction s) auto

lemma boundary_after_run:
  assumes "1 \<le> n" and "n \<le> length (takeWhile is_word s)"
  shows "boundary_after s n \<longleftrightarrow> n = length (takeWhile is_word s)"
proof -
  from assms have p: "is_word (s ! (n - 1))" by (intro word_at) simp
  show ?thesis
  proof (cases "n = length (takeWhile is_word s)")
    case True
    then have d: "drop n s = dropWhile is_word s" by (simp add: dropWhile_eq_drop)
    have "\<not> (case dropWhile is_word s of [] \<Rightarrow> False | c # _ \<Rightarrow> is_word c)"
    proof (cases "dropWhile is_word s")
      case Nil
      then show ?thesis by (simp del: dropWhile_eq_Nil_conv)
    next
      case (Cons c r)
      then have "\<not> is_word c" using hd_dropWhile [of is_word s] by simp
      with Cons show ?thesis by simp
    qed
    then have "\<not> (case drop n s of [] \<Rightarrow> False | c # _ \<Rightarrow> is_word c)"
      unfolding d .
    with p have "boundary_after s n" by (simp add: boundary_after_def at_boundary_def)
    with True show ?thesis by simp
  next
    case False
    with assms have lt: "n < length (takeWhile is_word s)" by simp
    then have "n < length s" using length_takeWhile_le_length [of is_word s] by simp
    then have d: "drop n s = s ! n # drop (Suc n) s" by (simp add: Cons_nth_drop_Suc)
    from lt have "is_word (s ! n)" by (rule word_at)
    with p d False show ?thesis by (simp add: boundary_after_def at_boundary_def)
  qed
qed

lemma takeWhile_AZ09_length:
  "length (takeWhile is_AZ09 s) \<le> length (takeWhile is_word s) \<and>
   (length (takeWhile is_AZ09 s) = length (takeWhile is_word s)
      \<longleftrightarrow> list_all is_AZ09 (takeWhile is_word s))"
  by (induction s) (auto dest: is_AZ09_word)

lemma match_alt1_run:
  "match_alt1 s =
     (if 2 \<le> length (takeWhile is_word s) \<and> list_all is_AZ09 (takeWhile is_word s)
      then Some (length (takeWhile is_word s)) else None)"
proof -
  let ?k = "length (takeWhile is_AZ09 s)" and ?m = "length (takeWhile is_word s)"
  have km: "?k \<le> ?m" and eq: "?k = ?m \<longleftrightarrow> list_all is_AZ09 (takeWhile is_word s)"
    using takeWhile_AZ09_length [of s] by simp_all
  have "\<forall>n. 2 \<le> n \<and> n < ?k \<longrightarrow> \<not> boundary_after s n"
    using km by (auto simp: boundary_after_run)
  then have bt: "backtrack (boundary_after s) 2 ?k
      = (if 2 \<le> ?k \<and> boundary_after s ?k then Some ?k else None)"
    by (rule backtrack_only_top)
  have "2 \<le> ?k \<Longrightarrow> boundary_after s ?k \<longleftrightarrow> ?k = ?m"
    using km by (intro boundary_after_run) simp_all
  with bt eq km show ?thesis unfolding match_alt1_def by auto
qed

lemma lookahead_digit_run: "lookahead_digit s \<longleftrightarrow> list_ex is_digit (takeWhile is_word s)"
proof -
  let ?m = "length (takeWhile is_word s)"
  have "lookahead_digit s \<longleftrightarrow> (\<exists>j. j \<le> ?m \<and> j < length s \<and> is_digit (s ! j))"
    by (auto simp: lookahead_digit_def backtrack_None_iff)
  also have "\<dots> \<longleftrightarrow> (\<exists>j. j < ?m \<and> is_digit (s ! j))"
  proof
    assume "\<exists>j. j \<le> ?m \<and> j < length s \<and> is_digit (s ! j)"
    then obtain j where j: "j \<le> ?m" "j < length s" "is_digit (s ! j)" by blast
    have "j \<noteq> ?m"
    proof
      assume "j = ?m"
      with j(2) have "\<not> is_word (s ! j)" using nth_length_takeWhile [of is_word s] by simp
      with j(3) show False by (simp add: is_digit_word)
    qed
    with j(1) have "j < ?m" by simp
    with j(3) show "\<exists>j. j < ?m \<and> is_digit (s ! j)" by blast
  next
    assume "\<exists>j. j < ?m \<and> is_digit (s ! j)"
    then obtain j where j: "j < ?m" "is_digit (s ! j)" by blast
    then have "j < length s" using length_takeWhile_le_length [of is_word s] by simp
    with j show "\<exists>j. j \<le> ?m \<and> j < length s \<and> is_digit (s ! j)"
      by (intro exI [of _ j]) simp
  qed
  also have "\<dots> \<longleftrightarrow> list_ex is_digit (takeWhile is_word s)"
  proof
    assume "\<exists>j. j < ?m \<and> is_digit (s ! j)"
    then obtain j where j: "j < ?m" "is_digit (s ! j)" by blast
    then have "takeWhile is_word s ! j \<in> set (takeWhile is_word s)" by simp
    moreover from j have "is_digit (takeWhile is_word s ! j)" by (simp add: takeWhile_nth)
    ultimately show "list_ex is_digit (takeWhile is_word s)"
      unfolding list_ex_iff by blast
  next
    assume "list_ex is_digit (takeWhile is_word s)"
    then obtain x where "x \<in> set (takeWhile is_word s)" "is_digit x"
      unfolding list_ex_iff by blast
    then obtain j where "j < ?m" "takeWhile is_word s ! j = x"
      unfolding in_set_conv_nth by blast
    with \<open>is_digit x\<close> have "j < ?m \<and> is_digit (s ! j)" by (simp add: takeWhile_nth)
    then show "\<exists>j. j < ?m \<and> is_digit (s ! j)" by blast
  qed
  finally show ?thesis .
qed

lemma match_alt2_run:
  "match_alt2 s =
     (if list_ex is_digit (takeWhile is_word s)
      then Some (length (takeWhile is_word s)) else None)"
proof (cases "list_ex is_digit (takeWhile is_word s)")
  case False
  then show ?thesis by (simp add: match_alt2_def lookahead_digit_run)
next
  case True
  then have "takeWhile is_word s \<noteq> []" by auto
  then have m: "1 \<le> length (takeWhile is_word s)" by (simp add: Suc_le_eq)
  then have "boundary_after s (length (takeWhile is_word s))"
    by (simp add: boundary_after_run)
  with m have "backtrack (boundary_after s) 1 (length (takeWhile is_word s))
      = Some (length (takeWhile is_word s))" by (rule backtrack_top)
  with True show ?thesis by (simp add: match_alt2_def lookahead_digit_run)
qed

lemma qualifies_run:
  "qualifies (takeWhile is_word s) \<longleftrightarrow>
     (2 \<le> length (takeWhile is_word s) \<and> list_all is_AZ09 (takeWhile is_word s)) \<or>
     list_ex is_digit (takeWhile is_word s)"
proof -
  have "list_all is_word (takeWhile is_word s)"
    by (auto simp: list_all_iff dest: set_takeWhileD)
  moreover have "list_ex is_digit (takeWhile is_word s) \<Longrightarrow> takeWhile is_word s \<noteq> []"
    by auto
  ultimately show ?thesis unfolding qualifies_def by blast
qed

lemma match_token_run:
  "match_token prev s =
     (if at_boundary prev s \<and> qualifies (takeWhile is_word s)
      then Some (length (takeWhile is_word s)) else None)"
  by (auto simp: match_token_def match_alt1_run match_alt2_run qualifies_run)

lemma at_boundary_Cons: "at_boundary prev (c # cs) \<longleftrightarrow> in_word prev \<noteq> is_word c"
  by (simp add: at_boundary_def in_word_def)

lemma qualifies_single: "\<not> is_word c \<Longrightarrow> \<not> qualifies [c]"
  by (simp add: qualifies_def)

lemma qualifies_Nil: "\<not> qualifies []"
  by (simp add: qualifies_def)

lemma repl_qualifies:
  "list_all is_word w \<Longrightarrow> repl w = protect_token w"
  by (auto simp: repl_def protect_token_def qualifies_def)

lemma protect_tokens_Nil: "protect_tokens [] = []"
  by (simp add: protect_tokens_def)

lemma protect_tokens_nonword:
  "\<not> is_word c \<Longrightarrow> protect_tokens (c # cs) = c # protect_tokens cs"
  by (simp add: protect_tokens_def tokens.simps(2) protect_token_def qualifies_single)

lemma protect_tokens_word:
  "is_word c \<Longrightarrow> protect_tokens (c # cs) =
     protect_token (takeWhile is_word (c # cs)) @ protect_tokens (dropWhile is_word (c # cs))"
  by (simp add: protect_tokens_def tokens.simps(2))

lemma takeWhile_after_dropWhile: "takeWhile P (dropWhile P s) = []"
  by (metis hd_dropWhile takeWhile_eq_Nil_iff)

lemma acronym_sub_tokens:
  "acronym_sub prev s =
     (if in_word prev
      then takeWhile is_word s @ protect_tokens (dropWhile is_word s)
      else protect_tokens s)"
proof (induction s arbitrary: prev rule: length_induct)
  case (1 s)
  show ?case
  proof (cases s)
    case Nil
    then show ?thesis by (simp add: protect_tokens_Nil)
  next
    case (Cons c cs)
    have ih: "\<And>t p. length t < length s \<Longrightarrow> acronym_sub p t =
        (if in_word p then takeWhile is_word t @ protect_tokens (dropWhile is_word t)
         else protect_tokens t)"
      using 1 by blast
    have step: "acronym_sub (Some c) cs =
        (if is_word c then takeWhile is_word cs @ protect_tokens (dropWhile is_word cs)
         else protect_tokens cs)"
      using ih [of cs "Some c"] Cons by (simp add: in_word_def)
    let ?w = "takeWhile is_word s"
    show ?thesis
    proof (cases "at_boundary prev s \<and> qualifies ?w")
      case False
      then have m: "match_token prev (c # cs) = None"
        using Cons by (simp add: match_token_run)
      then have sub: "acronym_sub prev s = c # acronym_sub (Some c) cs"
        using Cons by (simp add: acronym_sub.simps(2))
      show ?thesis
      proof (cases "is_word c")
        case w: True
        show ?thesis
        proof (cases "in_word prev")
          case True
          with w sub step Cons show ?thesis by simp
        next
          case nw: False
          with w Cons have "at_boundary prev s" by (simp add: at_boundary_Cons)
          with False have "\<not> qualifies ?w" by simp
          then have "protect_token ?w = ?w" by (simp add: protect_token_def)
          with w nw sub step Cons show ?thesis by (simp add: protect_tokens_word)
        qed
      next
        case nw: False
        with sub step Cons show ?thesis by (simp add: protect_tokens_nonword)
      qed
    next
      case True
      then have b: "at_boundary prev s" and q: "qualifies ?w" by simp_all
      from q Cons have w: "is_word c" by (cases "is_word c") (auto simp: qualifies_Nil)
      with b Cons have nw: "\<not> in_word prev" by (simp add: at_boundary_Cons)
      let ?n = "length ?w"
      from True Cons have m: "match_token prev (c # cs) = Some ?n"
        by (simp add: match_token_run)
      have n: "0 < ?n" using w Cons by simp
      have tk: "take ?n s = ?w" by (simp add: takeWhile_eq_take [symmetric])
      have dr: "drop ?n s = dropWhile is_word s" by (simp add: dropWhile_eq_drop)
      have lw: "is_word (s ! (?n - 1))" using n by (intro word_at) simp
      have "length ?w + length (dropWhile is_word s) = length s"
        by (metis length_append takeWhile_dropWhile_id)
      with n have shorter: "length (dropWhile is_word s) < length s" by linarith
      have rest: "acronym_sub (Some (s ! (?n - 1))) (dropWhile is_word s)
          = protect_tokens (dropWhile is_word s)"
        using ih [OF shorter, of "Some (s ! (?n - 1))"] lw
        by (simp add: in_word_def takeWhile_after_dropWhile)
      have "list_all is_word ?w" by (auto simp: list_all_iff dest: set_takeWhileD)
      then have rp: "repl ?w = protect_token ?w" by (rule repl_qualifies)
      have "acronym_sub prev s
          = repl (take ?n s) @ acronym_sub (Some (s ! (?n - 1))) (drop ?n s)"
        using m Cons by (simp add: acronym_sub.simps(2))
      also have "\<dots> = protect_token ?w @ protect_tokens (dropWhile is_word s)"
        by (simp only: tk dr rest rp)
      also have "\<dots> = protect_tokens s"
        using w Cons by (simp add: protect_tokens_word)
      finally show ?thesis using nw by simp
    qed
  qed
qed

lemma concat_tokens: "concat (tokens s) = s"
proof (induction s rule: tokens.induct)
  case 1
  then show ?case by simp
next
  case (2 c cs)
  show ?case
  proof (cases "is_word c")
    case True
    with 2 have "concat (tokens (dropWhile is_word (c # cs))) = dropWhile is_word (c # cs)"
      by simp
    moreover have "tokens (c # cs)
        = takeWhile is_word (c # cs) # tokens (dropWhile is_word (c # cs))"
      using True by (simp only: tokens.simps(2) if_True)
    ultimately show ?thesis by (simp only: concat.simps takeWhile_dropWhile_id)
  next
    case False
    with 2 show ?thesis by (simp add: tokens.simps(2))
  qed
qed



section \<open>Properties of the sentence caser\<close>

lemma of_char_to_lower:
  "of_char (to_lower c) = (if is_upper c then of_char c + 32 else (of_char c :: nat))"
  by (auto simp: to_lower_def is_upper_def Let_def)

lemma of_char_to_upper:
  "of_char (to_upper c) = (if is_lower c then of_char c - 32 else (of_char c :: nat))"
  by (auto simp: to_upper_def is_lower_def Let_def)

lemma is_upper_to_lower [simp]: "\<not> is_upper (to_lower c)"
  by (auto simp: is_upper_def Let_def of_char_to_lower)

lemma is_lower_to_lower [simp]: "is_lower (to_lower c) \<longleftrightarrow> is_alpha c"
  by (auto simp: is_lower_def is_alpha_def is_upper_def Let_def of_char_to_lower)

lemma is_lower_to_upper [simp]: "\<not> is_lower (to_upper c)"
  by (auto simp: is_lower_def Let_def of_char_to_upper)

lemma is_upper_to_upper [simp]: "is_upper (to_upper c) \<longleftrightarrow> is_alpha c"
  by (auto simp: is_lower_def is_alpha_def is_upper_def Let_def of_char_to_upper)

lemma is_alpha_to_lower [simp]: "is_alpha (to_lower c) \<longleftrightarrow> is_alpha c"
  by (simp add: is_alpha_def)

lemma is_alpha_to_upper [simp]: "is_alpha (to_upper c) \<longleftrightarrow> is_alpha c"
  by (simp add: is_alpha_def)

lemma to_lower_idem [simp]: "to_lower (to_lower c) = to_lower c"
  by (simp add: to_lower_def [of "to_lower c"])

lemma to_upper_idem [simp]: "to_upper (to_upper c) = to_upper c"
  by (simp add: to_upper_def [of "to_upper c"])

lemma to_lower_to_upper [simp]: "to_lower (to_upper c) = to_lower c"
proof (rule injD [OF inj_of_char [where 'a = nat]])
  show "(of_char (to_lower (to_upper c)) :: nat) = of_char (to_lower c)"
    by (auto simp: of_char_to_lower of_char_to_upper is_alpha_def is_upper_def is_lower_def
        Let_def)
qed

lemma to_lower_non_alpha: "\<not> is_alpha c \<Longrightarrow> to_lower c = c"
  by (simp add: to_lower_def is_alpha_def)

lemma to_upper_non_alpha: "\<not> is_alpha c \<Longrightarrow> to_upper c = c"
  by (simp add: to_upper_def is_alpha_def)

lemma is_space_not_alpha: "is_space c \<Longrightarrow> \<not> is_alpha c"
  by (auto simp: is_space_def is_alpha_def is_upper_def is_lower_def Let_def)

lemma is_space_not_colon: "is_space c \<Longrightarrow> c \<noteq> CHR '':''"
  by (auto simp: is_space_def)

lemma colon_not_alpha [simp]: "\<not> is_alpha CHR '':''"
  by (simp add: is_alpha_def is_upper_def is_lower_def)

lemma brace_not_alpha [simp]: "\<not> is_alpha CHR ''{''" "\<not> is_alpha CHR ''}''"
  by (simp_all add: is_alpha_def is_upper_def is_lower_def)

lemma is_digit_not_alpha: "is_digit c \<Longrightarrow> \<not> is_alpha c"
  by (auto simp: is_digit_def is_alpha_def is_upper_def is_lower_def Let_def)

lemma is_digit_to_lower [simp]: "is_digit (to_lower c) \<longleftrightarrow> is_digit c"
  by (metis is_alpha_to_lower is_digit_not_alpha to_lower_non_alpha)

lemma is_alnum_to_lower [simp]: "is_alnum (to_lower c) \<longleftrightarrow> is_alnum c"
  by (simp add: is_alnum_def)

lemma match_colon_run:
  "match_colon (c # cs) =
     (if c = CHR '':'' \<and> length (takeWhile is_space cs) < length cs
          \<and> is_alpha (cs ! length (takeWhile is_space cs))
      then Some (length (takeWhile is_space cs)) else None)"
proof -
  let ?m = "length (takeWhile is_space cs)"
  have "\<forall>k. 0 \<le> k \<and> k < ?m \<longrightarrow> \<not> (k < length cs \<and> is_alpha (cs ! k))"
    by (metis is_space_not_alpha nth_mem set_takeWhileD takeWhile_nth)
  then have "backtrack (\<lambda>k. k < length cs \<and> is_alpha (cs ! k)) 0 ?m
      = (if 0 \<le> ?m \<and> (?m < length cs \<and> is_alpha (cs ! ?m)) then Some ?m else None)"
    by (rule backtrack_only_top)
  then show ?thesis by (simp add: match_colon_def)
qed

lemma cap_first_run:
  "cap_first s =
     (let k = length (takeWhile (\<lambda>c. \<not> is_alnum c) s) in
      if k < length s \<and> is_alpha (s ! k)
      then take k s @ to_upper (s ! k) # drop (Suc k) s else s)"
proof -
  let ?m = "length (takeWhile (\<lambda>c. \<not> is_alnum c) s)"
  have "\<forall>k. 0 \<le> k \<and> k < ?m \<longrightarrow> \<not> (k < length s \<and> is_alpha (s ! k))"
    by (metis is_alnum_def nth_mem set_takeWhileD takeWhile_nth)
  then have "backtrack (\<lambda>k. k < length s \<and> is_alpha (s ! k)) 0 ?m
      = (if 0 \<le> ?m \<and> (?m < length s \<and> is_alpha (s ! ?m)) then Some ?m else None)"
    by (rule backtrack_only_top)
  then show ?thesis by (simp add: cap_first_def Let_def)
qed

lemma colon_scan_spaces:
  "list_all is_space ws \<Longrightarrow> colon_scan True (ws @ r) = ws @ colon_scan True r"
  by (induction ws) (auto dest: is_space_not_alpha)

lemma colon_scan_unarmed:
  "\<not> (length (takeWhile is_space s) < length s \<and> is_alpha (s ! length (takeWhile is_space s)))
     \<Longrightarrow> colon_scan True s = colon_scan False s"
proof (induction s)
  case Nil
  then show ?case by simp
next
  case (Cons c cs)
  show ?case
  proof (cases "is_space c")
    case True
    with Cons.prems have "\<not> (length (takeWhile is_space cs) < length cs
        \<and> is_alpha (cs ! length (takeWhile is_space cs)))" by simp
    from Cons.IH [OF this] True show ?thesis
      by (simp add: is_space_not_alpha is_space_not_colon)
  next
    case False
    with Cons.prems have "\<not> is_alpha c" by simp
    with False show ?thesis by simp
  qed
qed

lemma colon_sub_scan: "colon_sub s = colon_scan False s"
proof (induction s rule: length_induct)
  case (1 s)
  show ?case
  proof (cases s)
    case Nil
    then show ?thesis by simp
  next
    case (Cons c cs)
    let ?m = "length (takeWhile is_space cs)"
    have ih: "\<And>t. length t < length s \<Longrightarrow> colon_sub t = colon_scan False t"
      using 1 by blast
    show ?thesis
    proof (cases "c = CHR '':'' \<and> ?m < length cs \<and> is_alpha (cs ! ?m)")
      case True
      then have m: "match_colon (c # cs) = Some ?m" by (simp add: match_colon_run)
      have sp: "list_all is_space (take ?m cs)"
        by (simp add: takeWhile_eq_take [symmetric] list_all_iff) (auto dest: set_takeWhileD)
      from True have cs: "cs = take ?m cs @ cs ! ?m # drop (Suc ?m) cs"
        by (simp add: id_take_nth_drop [symmetric])
      have "colon_sub (drop (Suc ?m) cs) = colon_scan False (drop (Suc ?m) cs)"
        using Cons by (intro ih) simp
      with m Cons have "colon_sub s
          = c # take ?m cs @ to_upper (cs ! ?m) # colon_scan False (drop (Suc ?m) cs)"
        by (simp add: colon_sub.simps(2))
      moreover have "colon_scan True (take ?m cs @ cs ! ?m # drop (Suc ?m) cs)
          = take ?m cs @ to_upper (cs ! ?m) # colon_scan False (drop (Suc ?m) cs)"
        using True by (simp add: colon_scan_spaces [OF sp])
      then have "colon_scan True cs
          = take ?m cs @ to_upper (cs ! ?m) # colon_scan False (drop (Suc ?m) cs)"
        using cs by simp
      ultimately show ?thesis using True Cons by simp
    next
      case False
      then have m: "match_colon (c # cs) = None" by (simp add: match_colon_run)
      have "colon_sub cs = colon_scan False cs" using Cons by (intro ih) simp
      with m Cons have sub: "colon_sub s = c # colon_scan False cs"
        by (simp add: colon_sub.simps(2))
      show ?thesis
      proof (cases "c = CHR '':''")
        case True
        with False have "colon_scan True cs = colon_scan False cs"
          by (intro colon_scan_unarmed) simp
        with sub True Cons show ?thesis by simp
      next
        case False
        with sub Cons show ?thesis by simp
      qed
    qed
  qed
qed

lemma length_colon_scan [simp]: "length (colon_scan b s) = length s"
  by (induction s arbitrary: b) auto

lemma lower_colon_scan: "map to_lower (colon_scan b s) = map to_lower s"
  by (induction s arbitrary: b) auto

lemma colon_scan_append:
  "\<exists>b'. colon_scan b (u @ v) = colon_scan b u @ colon_scan b' v"
  by (induction u arbitrary: b) auto

lemma colon_scan_colon:
  "list_all is_space ws \<Longrightarrow> is_alpha d \<Longrightarrow>
     colon_scan b (CHR '':'' # ws @ d # r) = CHR '':'' # ws @ to_upper d # colon_scan False r"
  by (simp add: colon_scan_spaces)

lemma colon_scan_after_colon:
  assumes "list_all is_space ws" and "is_alpha d"
  shows "colon_scan b (u @ CHR '':'' # ws @ d # r) ! (length u + 1 + length ws) = to_upper d"
proof -
  obtain b' where "colon_scan b (u @ CHR '':'' # ws @ d # r)
      = colon_scan b u @ colon_scan b' (CHR '':'' # ws @ d # r)"
    using colon_scan_append by blast
  then have "colon_scan b (u @ CHR '':'' # ws @ d # r)
      = colon_scan b u @ CHR '':'' # ws @ to_upper d # colon_scan False r"
    by (simp only: colon_scan_colon [OF assms])
  then show ?thesis by (simp add: nth_append)
qed

lemma colon_scan_non_alpha:
  "i < length s \<Longrightarrow> \<not> is_alpha (s ! i) \<Longrightarrow> colon_scan b s ! i = s ! i"
proof (induction s arbitrary: b i)
  case Nil
  then show ?case by simp
next
  case (Cons c cs)
  then show ?case by (cases i) auto
qed

lemma colon_scan_upper:
  "i < length s \<Longrightarrow> is_upper (s ! i) \<Longrightarrow> colon_scan b s ! i = s ! i"
proof (induction s arbitrary: b i)
  case Nil
  then show ?case by simp
next
  case (Cons c cs)
  then show ?case by (cases i) (auto simp: to_upper_def is_lower_def is_upper_def Let_def)
qed

lemma length_cap_first [simp]: "length (cap_first s) = length s"
  by (auto simp: cap_first_run Let_def)

lemma lower_cap_first: "map to_lower (cap_first s) = map to_lower s"
proof -
  let ?k = "length (takeWhile (\<lambda>c. \<not> is_alnum c) s)"
  show ?thesis
  proof (cases "?k < length s \<and> is_alpha (s ! ?k)")
    case True
    then have "s = take ?k s @ s ! ?k # drop (Suc ?k) s"
      by (simp add: id_take_nth_drop [symmetric])
    then have "map to_lower s
        = map to_lower (take ?k s) @ to_lower (s ! ?k) # map to_lower (drop (Suc ?k) s)"
      by (metis list.simps(9) map_append)
    with True show ?thesis by (simp add: cap_first_run Let_def)
  next
    case False
    then show ?thesis by (auto simp: cap_first_run Let_def)
  qed
qed

lemma str_lower_idem [simp]: "str_lower (str_lower s) = str_lower s"
  by (simp add: str_lower_def)

lemma str_lower_colon_sub [simp]: "str_lower (colon_sub s) = str_lower s"
  by (simp add: str_lower_def colon_sub_scan lower_colon_scan)

lemma str_lower_cap_first [simp]: "str_lower (cap_first s) = str_lower s"
  by (simp add: str_lower_def lower_cap_first)

lemma length_str_lower [simp]: "length (str_lower s) = length s"
  by (simp add: str_lower_def)

lemma length_colon_sub [simp]: "length (colon_sub s) = length s"
  by (simp add: colon_sub_scan)

lemma to_lower_eq_non_alpha: "\<not> is_alpha d \<Longrightarrow> to_lower c = d \<longleftrightarrow> c = d"
  by (metis is_alpha_to_lower to_lower_non_alpha)

lemma has_letter_str_lower [simp]: "has_letter (str_lower s) \<longleftrightarrow> has_letter s"
  by (simp add: has_letter_def str_lower_def list_ex_iff)

lemma is_protected_str_lower [simp]: "is_protected (str_lower p) \<longleftrightarrow> is_protected p"
proof (cases "p = []")
  case True
  then show ?thesis by (simp add: str_lower_def)
next
  case False
  then have "hd (str_lower p) = to_lower (hd p)" "last (str_lower p) = to_lower (last p)"
    by (simp_all add: str_lower_def hd_map last_map)
  with False show ?thesis
    by (simp add: is_protected_iff to_lower_eq_non_alpha) (simp add: str_lower_def)
qed

lemma case_parts_nth:
  "i < length ps \<Longrightarrow>
     case_parts f ps ! i =
       (if is_protected (ps ! i) then ps ! i
        else if f \<and> list_all (\<lambda>u. is_protected u \<or> \<not> has_letter u) (take i ps)
                \<and> has_letter (ps ! i)
        then colon_sub (cap_first (str_lower (ps ! i)))
        else colon_sub (str_lower (ps ! i)))"
proof (induction ps arbitrary: f i)
  case Nil
  then show ?case by simp
next
  case (Cons p ps)
  show ?case
  proof (cases i)
    case 0
    then show ?thesis by (simp add: Let_def)
  next
    case (Suc j)
    with Cons.prems have j: "j < length ps" by simp
    show ?thesis
    proof (cases "is_protected p")
      case True
      with Suc Cons.IH [OF j, of f] show ?thesis by simp
    next
      case np: False
      show ?thesis
      proof (cases "f \<and> has_letter p")
        case True
        with np Suc Cons.IH [OF j, of False] show ?thesis by (simp add: Let_def)
      next
        case False
        with np Suc Cons.IH [OF j, of f] show ?thesis by (auto simp: Let_def)
      qed
    qed
  qed
qed

lemma cap_first_Nil [simp]: "cap_first [] = []"
  by (simp add: cap_first_run)

lemma cap_first_Cons:
  "cap_first (c # cs) =
     (if \<not> is_alnum c then c # cap_first cs
      else if is_alpha c then to_upper c # cs else c # cs)"
  by (auto simp: cap_first_run Let_def)

lemma cap_first_lower_no_digit:
  "\<not> has_letter pre \<Longrightarrow> \<not> list_ex is_digit pre \<Longrightarrow> is_alpha c \<Longrightarrow>
     cap_first (str_lower (pre @ c # rest)) = pre @ to_upper (to_lower c) # str_lower rest"
proof (induction pre)
  case Nil
  then show ?case by (simp add: str_lower_def cap_first_Cons is_alnum_def)
next
  case (Cons a pre)
  then have a: "\<not> is_alpha a" "\<not> is_digit a" and pre: "\<not> has_letter pre" "\<not> list_ex is_digit pre"
    by (simp_all add: has_letter_def)
  from a have "to_lower a = a" "\<not> is_alnum a" by (simp_all add: to_lower_non_alpha is_alnum_def)
  with Cons.IH [OF pre Cons.prems(3)] show ?case
    by (simp add: str_lower_def cap_first_Cons)
qed

lemma cap_first_lower_digit:
  "\<not> has_letter pre \<Longrightarrow> list_ex is_digit pre \<Longrightarrow>
     cap_first (str_lower (pre @ s)) = str_lower (pre @ s)"
proof (induction pre)
  case Nil
  then show ?case by simp
next
  case (Cons a pre)
  then have a: "\<not> is_alpha a" and pre: "\<not> has_letter pre" by (simp_all add: has_letter_def)
  show ?case
  proof (cases "is_digit a")
    case True
    with a show ?thesis by (simp add: str_lower_def cap_first_Cons is_alnum_def)
  next
    case False
    with Cons.prems have "list_ex is_digit pre" by simp
    from Cons.IH [OF pre this] a False show ?thesis
      by (simp add: str_lower_def cap_first_Cons is_alnum_def to_lower_non_alpha)
  qed
qed

lemma colon_scan_no_letter: "\<not> has_letter s \<Longrightarrow> colon_scan b s = s"
  by (induction s arbitrary: b) (auto simp: has_letter_def)

lemma colon_scan_capital:
  assumes "\<not> has_letter pre" and "is_upper C"
  shows "\<exists>rest'. colon_scan b (pre @ C # s) = pre @ C # rest' \<and> length rest' = length s"
proof -
  obtain b' where "colon_scan b (pre @ C # s) = colon_scan b pre @ colon_scan b' (C # s)"
    using colon_scan_append by blast
  moreover have "colon_scan b pre = pre" using assms(1) by (rule colon_scan_no_letter)
  moreover have "to_upper C = C" using assms(2) by (simp add: to_upper_def is_lower_def is_upper_def Let_def)
  then have "\<exists>b''. colon_scan b' (C # s) = C # colon_scan b'' s" by auto
  ultimately show ?thesis by (metis length_colon_scan)
qed

lemma cap_first_nth:
  "k < length s \<Longrightarrow>
     cap_first s ! k = s ! k \<or> (is_alpha (s ! k) \<and> cap_first s ! k = to_upper (s ! k))"
proof (induction s arbitrary: k)
  case Nil
  then show ?case by simp
next
  case (Cons c cs)
  then show ?case by (cases k) (auto simp: cap_first_Cons)
qed

lemma colon_scan_index:
  assumes "i < j" and "j < length s" and "s ! i = CHR '':''"
    and "\<forall>k. i < k \<and> k < j \<longrightarrow> is_space (s ! k)" and "is_alpha (s ! j)"
  shows "colon_scan b s ! j = to_upper (s ! j)"
proof -
  define u where "u = take i s"
  define ws where "ws = take (j - Suc i) (drop (Suc i) s)"
  define r where "r = drop (Suc j) s"
  from assms(1,2) have "s = take i s @ s ! i # drop (Suc i) s"
    by (simp add: id_take_nth_drop [symmetric])
  moreover from assms(1,2) have "drop (Suc i) s
      = take (j - Suc i) (drop (Suc i) s) @ drop (Suc i) s ! (j - Suc i)
          # drop (Suc (j - Suc i)) (drop (Suc i) s)"
    by (intro id_take_nth_drop) simp
  moreover from assms(1,2) have "drop (Suc i) s ! (j - Suc i) = s ! j" by simp
  moreover from assms(1,2) have "drop (Suc (j - Suc i)) (drop (Suc i) s) = drop (Suc j) s"
    by simp
  ultimately have s: "u @ CHR '':'' # ws @ s ! j # r = s"
    using assms(3) unfolding u_def ws_def r_def by simp
  have ws: "list_all is_space ws"
    using assms(1,2,4) unfolding ws_def by (auto simp: list_all_length)
  have len: "length u + 1 + length ws = j"
    using assms(1,2) unfolding u_def ws_def by simp
  have "colon_scan b (u @ CHR '':'' # ws @ s ! j # r) ! (length u + 1 + length ws)
      = to_upper (s ! j)"
    by (rule colon_scan_after_colon [OF ws assms(5)])
  then show ?thesis by (simp only: len s)
qed




lemma colon_rule_in_segment:
  assumes p: "p = u @ CHR '':'' # ws @ d # r" and ws: "list_all is_space ws"
    and d: "is_alpha d" and s: "s = str_lower p \<or> s = cap_first (str_lower p)"
  shows "colon_sub s ! (length u + 1 + length ws) = to_upper (to_lower d)"
proof -
  let ?x = "str_lower p" and ?i = "length u" and ?j = "length u + 1 + length ws"
  have len: "length s = length p" using s by auto
  have rel: "s ! k = ?x ! k \<or> (is_alpha (?x ! k) \<and> s ! k = to_upper (?x ! k))"
    if "k < length p" for k
    using s cap_first_nth [of k ?x] that by auto
  have x: "?x ! k = to_lower (p ! k)" if "k < length p" for k
    using that by (simp add: str_lower_def)
  have pi: "p ! ?i = CHR '':''" and pj: "p ! ?j = d" and lt: "?i < ?j" "?j < length p"
    using p by (simp_all add: nth_append)
  have pk: "is_space (p ! k)" if "?i < k" "k < ?j" for k
  proof -
    from that have "p ! k = ws ! (k - Suc ?i)" "k - Suc ?i < length ws"
      using p by (auto simp: nth_append nth_Cons')
    with ws show ?thesis by (simp add: list_all_length)
  qed
  have si: "s ! ?i = CHR '':''"
    using rel [of ?i] x [of ?i] pi lt by (simp add: to_lower_non_alpha)
  have sk: "\<forall>k. ?i < k \<and> k < ?j \<longrightarrow> is_space (s ! k)"
  proof (intro allI impI)
    fix k assume k: "?i < k \<and> k < ?j"
    then have sp: "is_space (p ! k)" using pk by blast
    then have "?x ! k = p ! k" using x [of k] k lt
      by (simp add: to_lower_non_alpha is_space_not_alpha)
    with rel [of k] k lt sp show "is_space (s ! k)" by (auto dest: is_space_not_alpha)
  qed
  have sj: "is_alpha (s ! ?j) \<and> to_upper (s ! ?j) = to_upper (to_lower d)"
    using rel [of ?j] x [of ?j] pj lt d by auto
  from sj have "colon_scan False s ! ?j = to_upper (s ! ?j)"
    using lt len si sk by (intro colon_scan_index [of ?i]) simp_all
  with sj show ?thesis by (simp add: colon_sub_scan)
qed




section \<open>The pipeline is idempotent\<close>

lemma to_lower_eq_open [simp]: "to_lower c = CHR ''{'' \<longleftrightarrow> c = CHR ''{''"
  by (simp add: to_lower_eq_non_alpha)

lemma to_lower_eq_close [simp]: "to_lower c = CHR ''}'' \<longleftrightarrow> c = CHR ''}''"
  by (simp add: to_lower_eq_non_alpha)

lemma to_lower_eq_open' [simp]: "CHR ''{'' = to_lower c \<longleftrightarrow> c = CHR ''{''"
  using to_lower_eq_open [of c] by (metis)

lemma to_lower_eq_close' [simp]: "CHR ''}'' = to_lower c \<longleftrightarrow> c = CHR ''}''"
  using to_lower_eq_close [of c] by (metis)

lemma str_lower_Cons [simp]: "str_lower (c # cs) = to_lower c # str_lower cs"
  by (simp add: str_lower_def)

lemma str_lower_Nil [simp]: "str_lower [] = []"
  by (simp add: str_lower_def)

lemma str_lower_append [simp]: "str_lower (a @ b) = str_lower a @ str_lower b"
  by (simp add: str_lower_def)

lemma str_lower_take [simp]: "str_lower (take n s) = take n (str_lower s)"
  by (simp add: str_lower_def take_map)

lemma str_lower_drop [simp]: "str_lower (drop n s) = drop n (str_lower s)"
  by (simp add: str_lower_def drop_map)

lemma close_in_str_lower [simp]: "CHR ''}'' \<in> set (str_lower s) \<longleftrightarrow> CHR ''}'' \<in> set s"
  by (induction s) auto

lemma takeWhile_close_str_lower [simp]:
  "length (takeWhile (\<lambda>d. d \<noteq> CHR ''}'') (str_lower s))
     = length (takeWhile (\<lambda>d. d \<noteq> CHR ''}'') s)"
  by (induction s) auto

lemma match_braces_str_lower: "match_braces (str_lower s) = match_braces s"
  by (cases s) (simp_all add: match_braces_def)

lemma search_braces_str_lower:
  "search_braces (str_lower s) =
     map_option (\<lambda>(pre, m, post). (str_lower pre, str_lower m, str_lower post))
       (search_braces s)"
proof (induction s)
  case Nil
  then show ?case by simp
next
  case (Cons c cs)
  have m: "match_braces (to_lower c # str_lower cs) = match_braces (c # cs)"
    using match_braces_str_lower [of "c # cs"] by simp
  show ?case
  proof (cases "match_braces (c # cs)")
    case None
    with m Cons show ?thesis by (auto split: option.splits)
  next
    case (Some n)
    with m show ?thesis
      using str_lower_take [of n "c # cs"] str_lower_drop [of n "c # cs"] by simp
  qed
qed

lemma split_braces_str_lower: "split_braces (str_lower s) = map str_lower (split_braces s)"
proof (induction s rule: split_braces.induct)
  case (1 s)
  show ?case
  proof (cases "search_braces s")
    case None
    then have "search_braces (str_lower s) = None" by (simp add: search_braces_str_lower)
    with None show ?thesis by (simp add: split_braces_None)
  next
    case (Some t)
    then obtain pre m post where t: "search_braces s = Some (pre, m, post)" by (cases t) auto
    then have "search_braces (str_lower s) = Some (str_lower pre, str_lower m, str_lower post)"
      by (simp add: search_braces_str_lower)
    with "1" [OF t] t show ?thesis by (simp add: split_braces_Some)
  qed
qed

lemma str_lower_concat: "str_lower (concat xs) = concat (map str_lower xs)"
  by (induction xs) simp_all

lemma str_lower_case_parts: "map str_lower (case_parts f ps) = map str_lower ps"
  by (induction ps arbitrary: f) (auto simp: Let_def)

lemma case_parts_idem: "case_parts f (case_parts f ps) = case_parts f ps"
proof (induction ps arbitrary: f)
  case Nil
  then show ?case by simp
next
  case (Cons p ps)
  show ?case
  proof (cases "is_protected p")
    case True
    with Cons show ?thesis by simp
  next
    case np: False
    show ?thesis
    proof (cases "f \<and> has_letter p")
      case True
      let ?q = "colon_sub (cap_first (str_lower p))"
      have "str_lower ?q = str_lower p" by simp
      then have "\<not> is_protected ?q" "has_letter ?q"
        using np True by (metis is_protected_str_lower, metis has_letter_str_lower)
      with np True Cons [of False] show ?thesis by (simp add: Let_def)
    next
      case False
      let ?q = "colon_sub (str_lower p)"
      have "str_lower ?q = str_lower p" by simp
      then have "\<not> is_protected ?q" "has_letter ?q \<longleftrightarrow> has_letter p"
        using np by (metis is_protected_str_lower, metis has_letter_str_lower)
      with np False Cons [of f] show ?thesis by (auto simp: Let_def)
    qed
  qed
qed

lemma same_lower_same_lengths:
  "map str_lower xs = map str_lower ys \<Longrightarrow>
     length xs = length ys \<and> (\<forall>(x, y) \<in> set (zip xs ys). length x = length y)"
proof (induction xs arbitrary: ys)
  case Nil
  then show ?case by simp
next
  case (Cons x xs)
  then obtain y ys' where ys: "ys = y # ys'" by (cases ys) auto
  with Cons.prems have xy: "str_lower x = str_lower y"
    and rest: "map str_lower xs = map str_lower ys'" by simp_all
  from xy have "length (str_lower x) = length (str_lower y)" by simp
  then have len: "length x = length y" by simp
  from Cons.IH [OF rest] have "length xs = length ys'"
    and "\<forall>(x, y) \<in> set (zip xs ys'). length x = length y" by simp_all
  with len ys show ?case by simp
qed

lemma split_braces_sentence_case:
  "split_braces (sentence_case_preserve_braces x) = sentence_case_parts x"
proof -
  let ?y = "sentence_case_preserve_braces x"
  have "str_lower ?y = concat (map str_lower (case_parts True (split_braces x)))"
    by (simp add: sentence_case_preserve_braces_def sentence_case_parts_def str_lower_concat)
  also have "\<dots> = concat (map str_lower (split_braces x))"
    by (simp only: str_lower_case_parts)
  also have "\<dots> = str_lower (concat (split_braces x))"
    by (simp only: str_lower_concat)
  also have "\<dots> = str_lower x" by (simp only: concat_split_braces)
  finally have "str_lower ?y = str_lower x" .
  then have "map str_lower (split_braces ?y) = map str_lower (split_braces x)"
    by (simp flip: split_braces_str_lower)
  also have "\<dots> = map str_lower (sentence_case_parts x)"
    by (simp add: sentence_case_parts_def str_lower_case_parts)
  finally have "length (split_braces ?y) = length (sentence_case_parts x) \<and>
      (\<forall>(a, b) \<in> set (zip (split_braces ?y) (sentence_case_parts x)). length a = length b)"
    by (rule same_lower_same_lengths)
  moreover have "concat (split_braces ?y) = concat (sentence_case_parts x)"
    by (simp add: concat_split_braces sentence_case_preserve_braces_def)
  ultimately show ?thesis by (intro concat_injective) simp_all
qed

lemma sentence_case_idem:
  "sentence_case_preserve_braces (sentence_case_preserve_braces x)
     = sentence_case_preserve_braces x"
proof -
  have "sentence_case_parts (sentence_case_preserve_braces x) = sentence_case_parts x"
    unfolding sentence_case_parts_def [of "sentence_case_preserve_braces x"]
      split_braces_sentence_case
    by (simp add: sentence_case_parts_def case_parts_idem)
  then show ?thesis by (simp add: sentence_case_preserve_braces_def)
qed

lemma brace_entities_no_spans: "entity_spans nlp p = [] \<Longrightarrow> brace_entities nlp p = p"
  by (simp add: brace_entities_def)

lemma entities_stable_fix:
  assumes "entities_stable nlp r"
  shows "brace_entities_preserve_existing nlp r = r"
proof -
  have "map (\<lambda>p. if is_protected p then p else brace_entities nlp p) (split_braces r)
      = map (\<lambda>p. p) (split_braces r)"
    using assms unfolding entities_stable_def list_all_iff
    by (intro map_cong) (auto simp: brace_entities_no_spans)
  then show ?thesis
    by (simp add: brace_entities_preserve_existing_def brace_entities_parts_def
        concat_split_braces)
qed

lemma no_token_qualifies:
  assumes "\<forall>w \<in> set (tokens p). \<not> qualifies w"
  shows "acronym_sub None p = p"
proof -
  have "map protect_token (tokens p) = map (\<lambda>w. w) (tokens p)"
    using assms by (intro map_cong) (auto simp: protect_token_def)
  then show ?thesis
    by (simp add: acronym_sub_tokens in_word_def protect_tokens_def concat_tokens)
qed

lemma acronyms_stable_fix:
  assumes "acronyms_stable r"
  shows "protect_acronyms_preserve_braces r = r"
proof -
  have "map (\<lambda>p. if is_protected p then p else acronym_sub None p) (split_braces r)
      = map (\<lambda>p. p) (split_braces r)"
    using assms unfolding acronyms_stable_def list_all_iff
    by (intro map_cong) (auto simp: no_token_qualifies)
  then show ?thesis
    by (simp add: protect_acronyms_preserve_braces_def protect_acronyms_parts_def
        concat_split_braces)
qed



end
